theory Spec2Isabelle
  imports Complex_Main "HOL-Library.Word" "HOL-Library.Sublist"
begin

unbundle bit_operations_syntax

section \<open>Count-Min Sketch with top-K heavy hitters (package itemset)\<close>

text \<open>
  Go's \<open>int64\<close> is a 64-bit word: \<open>+\<close> and \<open>*\<close> wrap, \<open>>>\<close> on a signed value is the
  arithmetic shift, comparisons are signed.  Slices are lists; a slice that may be
  \<open>nil\<close> and is tested against \<open>nil\<close> is a list option.  Every run-time panic of the
  source is a value of \<open>error\<close>.
\<close>

type_synonym int64 = "64 word"

datatype error = IndexOutOfRange | DivideByZero | EmptyQueue | NegativeLength

subsection \<open>The priority queue and the hash code (package utils)\<close>

text \<open>
  Modelled from the spec: \<open>utils.Int64PriorityQueue\<close> and \<open>utils.HashCode\<close> are used by
  the sketch but their source is missing.  The spec describes the queue as a min-heap
  of labels "ordered by their current estimated count (smallest on top)", with "ties
  broken by arrival", whose re-add step removes "the current entry for item", and the
  hash code as "identity for int64 labels".  The queue is the list of its labels in
  arrival order; the estimated count of a label is its entry in the count map (a Go
  map read of a missing key yields 0).  The source calls \<open>Dequeue()\<close> and \<open>Enqueue(e)\<close>
  without a key: here \<open>Dequeue\<close> is told the label whose entry it removes, and \<open>Poll\<close>
  reads the counts from the count map it is given.
\<close>

type_synonym Int64PriorityQueue = "int64 list"

definition HashCode :: "int64 \<Rightarrow> int64" where
  "HashCode e = e"

definition NewInt64PriorityQueue :: Int64PriorityQueue where
  "NewInt64PriorityQueue = []"

definition Enqueue :: "int64 \<Rightarrow> Int64PriorityQueue \<Rightarrow> Int64PriorityQueue" where
  "Enqueue e q = q @ [e]"

definition Dequeue :: "int64 \<Rightarrow> Int64PriorityQueue \<Rightarrow> Int64PriorityQueue" where
  "Dequeue e q = remove1 e q"

definition Size :: "Int64PriorityQueue \<Rightarrow> int" where
  "Size q = int (length q)"

definition IsEmpty :: "Int64PriorityQueue \<Rightarrow> bool" where
  "IsEmpty q = (q = [])"

definition lookup0 :: "(int64 \<rightharpoonup> int64) \<Rightarrow> int64 \<Rightarrow> int64" where
  "lookup0 m key = (case m key of None \<Rightarrow> 0 | Some v \<Rightarrow> v)"

definition estimate :: "(int64 \<rightharpoonup> int64) \<Rightarrow> int64 \<Rightarrow> int" where
  "estimate cl e = sint (lookup0 cl (HashCode e))"

definition Poll :: "(int64 \<rightharpoonup> int64) \<Rightarrow> Int64PriorityQueue \<Rightarrow> (int64 \<times> Int64PriorityQueue) option" where
  "Poll cl q =
     (if q = [] then None
      else (let m = arg_min_list (estimate cl) q in Some (m, remove1 m q)))"

subsection \<open>The sketch\<close>

text \<open>
  The struct \<open>KHHCountMinSketch\<close>.  Fields whose names clash with HOL constants or
  would capture one-letter variables carry the suffix \<open>_f\<close>.  The package constants
  \<open>depth\<close> and \<open>width\<close> (undefined in the source) are the parameters \<open>cdepth\<close> and
  \<open>cwidth\<close> of the functions that mention them.
\<close>

record KHHCountMinSketch =
  depth :: nat
  width :: nat
  table :: "int64 list list"
  hashA :: "int64 list"
  size_f :: int64
  priorityQueue :: Int64PriorityQueue
  k_f :: int
  items :: "int64 \<rightharpoonup> int64"
  countlist :: "int64 \<rightharpoonup> int64"
  count_f :: int64
  counts :: "int64 list option"
  topcent :: "int64 list option"

text \<open>
  \<open>int(float64(m) * math.Log(float64(m)))\<close>.  A float64 value is a finite real, an
  infinity or NaN.  The float64 arithmetic of the expression (the rounding of the
  conversion \<open>float64(m)\<close>, of \<open>math.Log\<close> and of the product) is not modelled: the
  float64 value of \<open>float64(m) * math.Log(float64(m))\<close> is the parameter \<open>mlogm m\<close>.
  The conversion \<open>int(x)\<close> discards the fraction (truncation toward zero); when the
  64-bit \<open>int\<close> cannot hold the result (a value out of range, an infinity, NaN) the
  conversion succeeds with an implementation-dependent value, the parameter \<open>oor x\<close>.
\<close>

datatype float64 = Finite real | PosInf | NegInf | NaN

definition trunc :: "real \<Rightarrow> int" where
  "trunc x = (if 0 \<le> x then \<lfloor>x\<rfloor> else \<lceil>x\<rceil>)"

definition float_to_int :: "(float64 \<Rightarrow> int) \<Rightarrow> float64 \<Rightarrow> int" where
  "float_to_int oor x =
     (case x of
        Finite r \<Rightarrow> (if - (2 ^ 63) \<le> trunc r \<and> trunc r < 2 ^ 63 then trunc r else oor x)
      | PosInf \<Rightarrow> oor x
      | NegInf \<Rightarrow> oor x
      | NaN \<Rightarrow> oor x)"

definition klogk :: "(int \<Rightarrow> float64) \<Rightarrow> (float64 \<Rightarrow> int) \<Rightarrow> int \<Rightarrow> int" where
  "klogk mlogm oor m = float_to_int oor (mlogm m)"

text \<open>
  \<open>NewKHHCountMinSketch\<close>.  \<open>random i\<close> is the \<open>i\<close>-th value drawn by
  \<open>random.Int63n(2147483647)\<close>.  The coefficients are generated into the local slice
  \<open>hashA\<close>, which is not stored in \<open>result\<close>: the field keeps the zero value of
  \<open>new(KHHCountMinSketch)\<close>, the nil slice, as do \<open>count\<close> and \<open>counts\<close>.
\<close>

definition NewKHHCountMinSketch ::
  "nat \<Rightarrow> nat \<Rightarrow> (nat \<Rightarrow> int64) \<Rightarrow> (int \<Rightarrow> float64) \<Rightarrow> (float64 \<Rightarrow> int) \<Rightarrow> int
     \<Rightarrow> KHHCountMinSketch" where
  "NewKHHCountMinSketch cdepth cwidth random mlogm oor m =
     (let k = klogk mlogm oor m;
          countlist = Map.empty;
          items = Map.empty;
          table = replicate cdepth (replicate cwidth 0);
          hashA = map random [0..<cdepth]
      in \<lparr> depth = cdepth, width = cwidth, table = table, hashA = [], size_f = 0,
           priorityQueue = NewInt64PriorityQueue, k_f = k, items = items,
           countlist = countlist, count_f = 0, counts = None, topcent = None \<rparr>)"

definition PRIME_MODULUS :: int64 where
  "PRIME_MODULUS = push_bit 31 1 - 1"

definition Hash :: "nat \<Rightarrow> KHHCountMinSketch \<Rightarrow> int64 \<Rightarrow> nat \<Rightarrow> error + nat" where
  "Hash cwidth this item i =
     (if i < length (hashA this) then
        (let hash = (hashA this ! i) * item;
             hash = hash + signed_drop_bit 32 hash;
             hash = hash AND PRIME_MODULUS
         in if cwidth = 0 then Inl DivideByZero else Inr (unat hash mod cwidth))
      else Inl IndexOutOfRange)"

text \<open>
  One row of \<open>AddLong\<close>: \<open>this.table[i][this.Hash(item, i)] += count\<close> followed by the
  read of the same cell (the second \<open>Hash\<close> call of the source returns the same
  bucket, \<open>hashA\<close> being untouched).  Returns the sketch and the value read.
\<close>

definition AddLong_row ::
  "nat \<Rightarrow> KHHCountMinSketch \<Rightarrow> int64 \<Rightarrow> int64 \<Rightarrow> nat \<Rightarrow> error + (KHHCountMinSketch \<times> int64)" where
  "AddLong_row cwidth this item count i =
     (case Hash cwidth this item i of
        Inl e \<Rightarrow> Inl e
      | Inr h \<Rightarrow>
          (if i < length (table this) \<and> h < length (table this ! i) then
             (let row = (table this ! i)[h := table this ! i ! h + count]
              in Inr (this\<lparr>table := (table this)[i := row]\<rparr>, row ! h))
           else Inl IndexOutOfRange))"

fun AddLong_loop ::
  "nat \<Rightarrow> int64 \<Rightarrow> int64 \<Rightarrow> nat list \<Rightarrow> KHHCountMinSketch \<Rightarrow> int64 \<Rightarrow> error + (KHHCountMinSketch \<times> int64)" where
  "AddLong_loop cwidth item count [] this minv = Inr (this, minv)"
| "AddLong_loop cwidth item count (i # rest) this minv =
     (case AddLong_row cwidth this item count i of
        Inl e \<Rightarrow> Inl e
      | Inr (this', v) \<Rightarrow>
          AddLong_loop cwidth item count rest this' (if v <s minv then v else minv))"

definition AddLong ::
  "nat \<Rightarrow> KHHCountMinSketch \<Rightarrow> int64 \<Rightarrow> int64 \<Rightarrow> error + (KHHCountMinSketch \<times> int64)" where
  "AddLong cwidth this item count =
     (case AddLong_row cwidth this item count 0 of
        Inl e \<Rightarrow> Inl e
      | Inr (this1, minv) \<Rightarrow>
          (case AddLong_loop cwidth item count [1..<depth this1] this1 minv of
             Inl e \<Rightarrow> Inl e
           | Inr (this2, minv') \<Rightarrow> Inr (this2\<lparr>size_f := size_f this2 + count\<rparr>, minv')))"

text \<open>
  \<open>Add\<close>.  The eviction deletes the key \<open>removed\<close> from \<open>items\<close> and leaves
  \<open>countlist\<close> alone.
\<close>

definition Add :: "nat \<Rightarrow> KHHCountMinSketch \<Rightarrow> int64 \<Rightarrow> error + KHHCountMinSketch" where
  "Add cwidth this e =
     (case AddLong cwidth this (HashCode e) 1 of
        Inl err \<Rightarrow> Inl err
      | Inr (this1, count) \<Rightarrow>
          (let this2 =
                 (if items this1 (HashCode e) = None then
                    this1\<lparr>countlist := (countlist this1)(HashCode e \<mapsto> count),
                          priorityQueue := Enqueue e (priorityQueue this1),
                          items := (items this1)(HashCode e \<mapsto> e)\<rparr>
                  else
                    this1\<lparr>priorityQueue := Enqueue e (Dequeue e (priorityQueue this1)),
                          items := (items this1)(HashCode e \<mapsto> e),
                          countlist := (countlist this1)(HashCode e \<mapsto> count)\<rparr>)
           in if Size (priorityQueue this2) > k_f this2 then
                (case Poll (countlist this2) (priorityQueue this2) of
                   None \<Rightarrow> Inl EmptyQueue
                 | Some (removed, q) \<Rightarrow>
                     Inr (this2\<lparr>priorityQueue := q, items := (items this2)(removed := None)\<rparr>))
              else Inr this2))"

fun run_Add :: "nat \<Rightarrow> KHHCountMinSketch \<Rightarrow> int64 list \<Rightarrow> error + KHHCountMinSketch" where
  "run_Add cwidth this [] = Inr this"
| "run_Add cwidth this (e # es) =
     (case Add cwidth this e of Inl err \<Rightarrow> Inl err | Inr this' \<Rightarrow> run_Add cwidth this' es)"

text \<open>\<open>GetTop\<close>: \<open>append\<close> on a slice, and the draining loop.\<close>

definition append_slice :: "'a list option \<Rightarrow> 'a \<Rightarrow> 'a list option" where
  "append_slice s x = Some ((case s of None \<Rightarrow> [] | Some xs \<Rightarrow> xs) @ [x])"

function GetTop_loop :: "KHHCountMinSketch \<Rightarrow> error + KHHCountMinSketch" where
  "GetTop_loop this =
     (if \<not> IsEmpty (priorityQueue this) then
        (case Poll (countlist this) (priorityQueue this) of
           None \<Rightarrow> Inl EmptyQueue
         | Some (tmp, q) \<Rightarrow>
             GetTop_loop (this\<lparr>priorityQueue := q,
                               topcent := append_slice (topcent this) tmp,
                               counts := append_slice (counts this)
                                           (lookup0 (countlist this) (HashCode tmp))\<rparr>))
      else Inr this)"
  by pat_completeness auto
termination
  by (relation "measure (\<lambda>this. length (priorityQueue this))")
     (auto simp: Poll_def IsEmpty_def Let_def length_remove1 arg_min_list_in
           split: if_splits)

definition GetTop :: "KHHCountMinSketch \<Rightarrow> error + (KHHCountMinSketch \<times> int64 list option)" where
  "GetTop this =
     (if topcent this \<noteq> None then Inr (this, topcent this)
      else (case GetTop_loop (this\<lparr>topcent := Some [], counts := Some []\<rparr>) of
              Inl e \<Rightarrow> Inl e
            | Inr this' \<Rightarrow> Inr (this', topcent this')))"

section \<open>The map and reduce passes (package simple)\<close>


text \<open>
  Modelled from the spec: \<open>types.Centroid\<close> and \<open>defaults.NewCentroid\<close> are used by
  \<open>Simple.Reduce\<close> but their source is missing.  The spec: "Each centroid maintains: a
  d-vector sum, a count, and an associated label set", "\<open>update(v)\<close> adds \<open>v\<close> to the sum
  and increments the count", "\<open>finalize()\<close> returns \<open>sum / count\<close>", and a centroid is
  "created once per surviving top-K label".  Vectors are lists of reals (float64
  idealised); labels are integers; an update through the loop variable \<open>cent\<close> reaches
  the centroid of the slice.
\<close>

record Centroid =
  vec_sum :: "real list"
  cnt :: nat
  ids :: "int list"

definition NewCentroid :: "nat \<Rightarrow> int \<Rightarrow> Centroid" where
  "NewCentroid dimension label = \<lparr> vec_sum = replicate dimension 0, cnt = 0, ids = [label] \<rparr>"

definition Contains :: "int list \<Rightarrow> int \<Rightarrow> bool" where
  "Contains labels h = (h \<in> set labels)"

definition UpdateVector :: "Centroid \<Rightarrow> real list \<Rightarrow> Centroid" where
  "UpdateVector cent vec = cent\<lparr>vec_sum := map2 (+) (vec_sum cent) vec, cnt := cnt cent + 1\<rparr>"

definition Centroid_final :: "Centroid \<Rightarrow> real list" where
  "Centroid_final cent = map (\<lambda>x. x / real (cnt cent)) (vec_sum cent)"

text \<open>
  The inner loop of \<open>Reduce\<close>, \<open>for h := range hash\<close>: with a single loop variable Go's
  \<open>range\<close> over a slice yields the indices \<open>0 .. len(hash) - 1\<close>, so \<open>h\<close> is a position of
  the label stream.  The loop stops at the first \<open>h\<close> that \<open>cent.ids\<close> contains, after one
  \<open>UpdateVector\<close>.
\<close>

fun scan_hash :: "Centroid \<Rightarrow> real list \<Rightarrow> nat list \<Rightarrow> Centroid" where
  "scan_hash cent vec [] = cent"
| "scan_hash cent vec (h # hs) =
     (if Contains (ids cent) (int h) then UpdateVector cent vec else scan_hash cent vec hs)"

text \<open>The loop \<open>for _, cent := range centroids\<close>: every centroid is scanned.\<close>

definition update_centroids :: "Centroid list \<Rightarrow> real list \<Rightarrow> int list \<Rightarrow> Centroid list" where
  "update_centroids centroids vec hash =
     map (\<lambda>cent. scan_hash cent vec [0..<length hash]) centroids"

text \<open>
  The loop over the iterator.  The iterator is the list of the vectors it has yet to
  yield: \<open>HasNext\<close> tests that the list is not empty, \<open>Next\<close> takes its head.  \<open>vec\<close> is
  the vector taken last; the body handles it and takes the next one, and the loop ends
  when nothing is left to take.  \<open>LSHHashStream\<close> is the label stream of the LSH
  function (its source is missing; it is a parameter).
\<close>

fun Reduce_loop ::
  "(real list \<Rightarrow> nat \<Rightarrow> int list) \<Rightarrow> nat \<Rightarrow> real list \<Rightarrow> real list list \<Rightarrow> Centroid list \<Rightarrow> Centroid list" where
  "Reduce_loop LSHHashStream blurValue vec [] centroids = centroids"
| "Reduce_loop LSHHashStream blurValue vec (nxt # vecs) centroids =
     Reduce_loop LSHHashStream blurValue nxt vecs
       (update_centroids centroids vec (LSHHashStream vec blurValue))"

text \<open>
  \<open>Reduce\<close>: the value is the list of centroids handed to \<open>AddCentroid\<close>; on an empty
  iterator the object is returned as it is, with none added.
\<close>

definition Reduce_centroids ::
  "(real list \<Rightarrow> nat \<Rightarrow> int list) \<Rightarrow> nat \<Rightarrow> nat \<Rightarrow> int list \<Rightarrow> real list list \<Rightarrow> Centroid list" where
  "Reduce_centroids LSHHashStream blurValue dimension topIDs vecs =
     (case vecs of
        [] \<Rightarrow> []
      | vec # rest \<Rightarrow>
          Reduce_loop LSHHashStream blurValue vec rest (map (NewCentroid dimension) topIDs))"

definition Reduce ::
  "(real list \<Rightarrow> nat \<Rightarrow> int list) \<Rightarrow> nat \<Rightarrow> nat \<Rightarrow> int list \<Rightarrow> real list list \<Rightarrow> real list list" where
  "Reduce LSHHashStream blurValue dimension topIDs vecs =
     map Centroid_final (Reduce_centroids LSHHashStream blurValue dimension topIDs vecs)"

section \<open>Random projection (package rp)\<close>

text \<open>
  The struct \<open>RandomProjection\<close>; the fields carry the suffix \<open>_f\<close>.  The generator
  \<open>rando\<close> is the stream of its draws: \<open>rando c\<close> is the value of the \<open>c\<close>-th call of
  \<open>rando.Intn(6)\<close>, and the field \<open>random\<close> is the number of draws consumed.  float64 is
  idealised as \<open>real\<close>.
\<close>

record RandomProjection =
  M_f :: "int list list"
  P_f :: "int list list"
  n_f :: int
  t_f :: int
  random_f :: nat

text \<open>Go's integer division truncates toward zero.\<close>

definition quo :: "int \<Rightarrow> int \<Rightarrow> int" where
  "quo a b = (if (a < 0) = (b < 0) then \<bar>a\<bar> div \<bar>b\<bar> else - (\<bar>a\<bar> div \<bar>b\<bar>))"

text \<open>The loop over \<open>j\<close>: two draws for every \<open>j\<close>, an append to at most one list.\<close>

fun New_inner :: "(nat \<Rightarrow> nat) \<Rightarrow> nat list \<Rightarrow> int list \<times> int list \<times> nat \<Rightarrow> int list \<times> int list \<times> nat" where
  "New_inner rando [] st = st"
| "New_inner rando (j # js) (orderedM, orderedP, c) =
     (let rM = rando c; rP = rando (c + 1) in
      if rM = 0 then New_inner rando js (orderedM @ [int j], orderedP, c + 2)
      else if rP = 0 then New_inner rando js (orderedM, orderedP @ [int j], c + 2)
      else New_inner rando js (orderedM, orderedP, c + 2))"

text \<open>
  The loop over \<open>i\<close>.  \<open>make([]int, probability)\<close> is a slice of \<open>probability\<close> zeros (it
  panics on a negative length), to which the loop over \<open>j\<close> appends; \<open>tmpM\<close> and \<open>tmpP\<close>
  are copies of the two slices.
\<close>

fun New_rows ::
  "(nat \<Rightarrow> nat) \<Rightarrow> int \<Rightarrow> int \<Rightarrow> nat list \<Rightarrow> int list list \<times> int list list \<times> nat
     \<Rightarrow> error + (int list list \<times> int list list \<times> nat)" where
  "New_rows rando n probability [] st = Inr st"
| "New_rows rando n probability (i # rows) (M, P, c) =
     (if probability < 0 then Inl NegativeLength
      else
        (case New_inner rando [0..<nat n]
                (replicate (nat probability) 0, replicate (nat probability) 0, c) of
           (orderedM, orderedP, c') \<Rightarrow>
             (let tmpM = orderedM; tmpP = orderedP
              in New_rows rando n probability rows (M[i := tmpM], P[i := tmpP], c'))))"

definition New :: "(nat \<Rightarrow> nat) \<Rightarrow> int \<Rightarrow> int \<Rightarrow> error + RandomProjection" where
  "New rando n t =
     (if t < 0 then Inl NegativeLength
      else
        (case New_rows rando n (quo n 6) [0..<nat t]
                (replicate (nat t) [], replicate (nat t) [], 0) of
           Inl e \<Rightarrow> Inl e
         | Inr (M, P, c) \<Rightarrow> Inr \<lparr> M_f = M, P_f = P, n_f = n, t_f = t, random_f = c \<rparr>))"

text \<open>
  \<open>Project\<close>: the two loops over the index lists of a row (an index outside \<open>v\<close>
  panics), and the loop over the rows.
\<close>

fun Project_M :: "real list \<Rightarrow> real \<Rightarrow> int list \<Rightarrow> real \<Rightarrow> error + real" where
  "Project_M v scale [] sum_v = Inr sum_v"
| "Project_M v scale (val # vals) sum_v =
     (if 0 \<le> val \<and> val < int (length v) then Project_M v scale vals (sum_v - v ! nat val * scale)
      else Inl IndexOutOfRange)"

fun Project_P :: "real list \<Rightarrow> real \<Rightarrow> int list \<Rightarrow> real \<Rightarrow> error + real" where
  "Project_P v scale [] sum_v = Inr sum_v"
| "Project_P v scale (val # vals) sum_v =
     (if 0 \<le> val \<and> val < int (length v) then Project_P v scale vals (sum_v + v ! nat val * scale)
      else Inl IndexOutOfRange)"

definition Project_row :: "RandomProjection \<Rightarrow> real list \<Rightarrow> real \<Rightarrow> nat \<Rightarrow> error + real" where
  "Project_row this v scale i =
     (if i < length (M_f this) then
        (case Project_M v scale (M_f this ! i) 0 of
           Inl e \<Rightarrow> Inl e
         | Inr sum_v \<Rightarrow>
             (if i < length (P_f this) then Project_P v scale (P_f this ! i) sum_v
              else Inl IndexOutOfRange))
      else Inl IndexOutOfRange)"

fun Project_rows ::
  "RandomProjection \<Rightarrow> real list \<Rightarrow> real \<Rightarrow> nat list \<Rightarrow> real list \<Rightarrow> error + real list" where
  "Project_rows this v scale [] r = Inr r"
| "Project_rows this v scale (i # rows) r =
     (case Project_row this v scale i of
        Inl e \<Rightarrow> Inl e
      | Inr sum_v \<Rightarrow> Project_rows this v scale rows (r[i := sum_v]))"

definition Project :: "RandomProjection \<Rightarrow> real list \<Rightarrow> error + real list" where
  "Project this v =
     (if t_f this < 0 then Inl NegativeLength
      else Project_rows this v (sqrt (3 / real_of_int (t_f this))) [0..<nat (t_f this)]
             (replicate (nat (t_f this)) 0))"

section \<open>Auxiliary notions and concrete inputs\<close>

subsection \<open>Well-formed sketches and the effect of \<open>AddLong\<close>\<close>

text \<open>
  A sketch is well-formed when its table has the shape \<open>[depth][width]int64\<close> of the
  declaration, with at least one row and one bucket (the constant indices of the source
  need both), and \<open>hashA\<close> holds a coefficient for each row.  \<open>bucket\<close> is the value
  \<open>Hash\<close> computes when it does not fail; \<open>bump_row\<close> is the table after the
  increment of one row; \<open>loop_min\<close> is the running minimum of the loop of \<open>AddLong\<close>.
\<close>

definition wf_sketch :: "nat \<Rightarrow> KHHCountMinSketch \<Rightarrow> bool" where
  "wf_sketch cwidth s =
     (1 \<le> depth s \<and> 1 \<le> cwidth \<and> length (table s) = depth s \<and>
      list_all (\<lambda>row. length row = cwidth) (table s) \<and> depth s \<le> length (hashA s))"

definition bucket :: "nat \<Rightarrow> int64 list \<Rightarrow> int64 \<Rightarrow> nat \<Rightarrow> nat" where
  "bucket cwidth A item i =
     unat ((A ! i * item + signed_drop_bit 32 (A ! i * item)) AND PRIME_MODULUS) mod cwidth"

definition bump_row :: "nat \<Rightarrow> int64 list \<Rightarrow> int64 \<Rightarrow> int64 \<Rightarrow> nat \<Rightarrow> int64 list list \<Rightarrow> int64 list list" where
  "bump_row cwidth A item count i T =
     T[i := (T ! i)[bucket cwidth A item i := T ! i ! bucket cwidth A item i + count]]"

fun loop_min :: "nat \<Rightarrow> int64 list \<Rightarrow> int64 \<Rightarrow> int64 \<Rightarrow> nat list \<Rightarrow> int64 list list \<Rightarrow> int64 \<Rightarrow> int64" where
  "loop_min cwidth A item count [] T m = m"
| "loop_min cwidth A item count (i # rows) T m =
     loop_min cwidth A item count rows (bump_row cwidth A item count i T)
       (if T ! i ! bucket cwidth A item i + count <s m
        then T ! i ! bucket cwidth A item i + count else m)"

definition sketch0 :: KHHCountMinSketch where
  "sketch0 = \<lparr> depth = 2, width = 2, table = [[0, 0], [0, 0]], hashA = [3, 5], size_f = 0,
       priorityQueue = [], k_f = 1, items = Map.empty, countlist = Map.empty,
       count_f = 0, counts = None, topcent = None \<rparr>"

subsection \<open>Runs of \<open>AddLong\<close> and true counts\<close>

text \<open>
  A run of \<open>AddLong\<close> calls, stopping at the first panic and collecting the returned
  estimates; the true count of an item in a run and the total of a run, as unbounded
  integers; the cells a run has charged: \<open>mass\<close> is what the calls whose item hashes to
  bucket \<open>j\<close> of row \<open>i\<close> have added there.
\<close>

fun run_AddLong ::
  "nat \<Rightarrow> KHHCountMinSketch \<Rightarrow> (int64 \<times> int64) list \<Rightarrow> error + (KHHCountMinSketch \<times> int64 list)" where
  "run_AddLong cwidth this [] = Inr (this, [])"
| "run_AddLong cwidth this ((item, count) # calls) =
     (case AddLong cwidth this item count of
        Inl e \<Rightarrow> Inl e
      | Inr (this', r) \<Rightarrow>
          (case run_AddLong cwidth this' calls of
             Inl e \<Rightarrow> Inl e
           | Inr (this'', rs) \<Rightarrow> Inr (this'', r # rs)))"

definition true_count :: "int64 \<Rightarrow> (int64 \<times> int64) list \<Rightarrow> int" where
  "true_count x calls = sum_list (map (\<lambda>(item, count). if item = x then sint count else 0) calls)"

definition total_count :: "(int64 \<times> int64) list \<Rightarrow> int" where
  "total_count calls = sum_list (map (\<lambda>(item, count). sint count) calls)"

definition zero_table :: "KHHCountMinSketch \<Rightarrow> bool" where
  "zero_table s = list_all (list_all (\<lambda>c. c = 0)) (table s)"

definition nonneg_counts :: "(int64 \<times> int64) list \<Rightarrow> bool" where
  "nonneg_counts calls = list_all (\<lambda>(item, count). 0 \<le> sint count) calls"

definition mass :: "nat \<Rightarrow> int64 list \<Rightarrow> nat \<Rightarrow> nat \<Rightarrow> (int64 \<times> int64) list \<Rightarrow> int" where
  "mass cwidth A i j calls =
     sum_list (map (\<lambda>(item, count). if bucket cwidth A item i = j then sint count else 0) calls)"

definition cells_ok :: "nat \<Rightarrow> KHHCountMinSketch \<Rightarrow> (int64 \<times> int64) list \<Rightarrow> bool" where
  "cells_ok cwidth s calls =
     (\<forall>i<depth s. \<forall>j<cwidth. sint (table s ! i ! j) = mass cwidth (hashA s) i j calls)"

definition calls_ok :: "(int64 \<times> int64) list" where
  "calls_ok = [(4, 3), (2, 1)]"

definition calls_neg :: "(int64 \<times> int64) list" where
  "calls_neg = [(4, - 1), (2, 1)]"

definition calls_wrap :: "(int64 \<times> int64) list" where
  "calls_wrap = [(2, 0x7FFFFFFFFFFFFFFF), (2, 1)]"

subsection \<open>The heap inside \<open>Add\<close>\<close>

text \<open>
  The heap an \<open>Add\<close> holds right after its insertion step, before the size test.
  Concrete inputs: a stream of random draws; the float64 values of
  \<open>float64(m) * math.Log(float64(m))\<close> at \<open>m = 1\<close> (\<open>Log(1) = 0\<close>, product 0) and at
  \<open>m = 2\<close> (\<open>Log(2) = 0x1.62e42fefa39efp-1\<close>, product 1.3862943611198906), in a table
  that is read at no other argument (its other entries are NaN); the out-of-range
  conversion of amd64; the sketch \<open>NewKHHCountMinSketch(m)\<close> for the constants
  \<open>depth = width = 2\<close> with the coefficients 3 and 5 stored in \<open>hashA\<close>; and the state
  \<open>sketch1\<close> that \<open>Add(7)\<close>
  reaches from \<open>sketch0\<close>.  \<open>GetTop_after\<close> calls \<open>GetTop\<close> on the outcome of a run;
  \<open>heap_view\<close> reads the heap and the two map entries of a key.
\<close>

definition inserted :: "KHHCountMinSketch \<Rightarrow> int64 \<Rightarrow> Int64PriorityQueue" where
  "inserted s e =
     (if items s (HashCode e) = None then Enqueue e (priorityQueue s)
      else Enqueue e (Dequeue e (priorityQueue s)))"

definition draws0 :: "nat \<Rightarrow> int64" where
  "draws0 i = 16807 * (of_nat i + 1)"

definition mlogm_table :: "int \<Rightarrow> float64" where
  "mlogm_table m =
     (if m = 1 then Finite 0
      else if m = 2 then Finite (6243314768165359 / 4503599627370496)
      else NaN)"

definition oor_amd64 :: "float64 \<Rightarrow> int" where
  "oor_amd64 x = - 9223372036854775808"

definition example_sketch :: "int \<Rightarrow> KHHCountMinSketch" where
  "example_sketch m =
     (NewKHHCountMinSketch 2 2 draws0 mlogm_table oor_amd64 m)\<lparr>hashA := [3, 5]\<rparr>"

definition sketch1 :: KHHCountMinSketch where
  "sketch1 = \<lparr> depth = 2, width = 2, table = [[0, 1], [0, 1]], hashA = [3, 5], size_f = 1,
       priorityQueue = [7], k_f = 1, items = [7 \<mapsto> 7], countlist = [7 \<mapsto> 1],
       count_f = 0, counts = None, topcent = None \<rparr>"


definition heap_view :: "int64 \<Rightarrow> KHHCountMinSketch \<Rightarrow> Int64PriorityQueue \<times> int64 option \<times> int64 option" where
  "heap_view key s = (priorityQueue s, items s key, countlist s key)"

subsection \<open>Calling \<open>GetTop\<close> twice\<close>

text \<open>
  Two consecutive calls of \<open>GetTop\<close>, and the state that \<open>Add(7)\<close>, \<open>Add(9)\<close>, \<open>Add(7)\<close>
  reach from \<open>sketch0\<close> with capacity 3: two labels in the heap, label 9 with
  estimated count 2 and label 7 with estimated count 3.
\<close>

definition GetTop_twice :: "KHHCountMinSketch \<Rightarrow> error + (KHHCountMinSketch \<times> int64 list option)" where
  "GetTop_twice s = (case GetTop s of Inl e \<Rightarrow> Inl e | Inr (s1, r1) \<Rightarrow> GetTop s1)"

definition sketch2 :: KHHCountMinSketch where
  "sketch2 = \<lparr> depth = 2, width = 2, table = [[0, 3], [0, 3]], hashA = [3, 5], size_f = 3,
       priorityQueue = [9, 7], k_f = 3, items = [7 \<mapsto> 7, 9 \<mapsto> 9],
       countlist = [7 \<mapsto> 3, 9 \<mapsto> 2],
       count_f = 0, counts = None, topcent = None \<rparr>"

subsection \<open>Inputs of the reduce pass\<close>

text \<open>
  The outcome of one scan of the inner loop of \<open>Reduce\<close>: whether the loop
  \<open>for h := range hash\<close> reaches \<open>UpdateVector\<close> for a centroid with the label set
  \<open>labels\<close>.
\<close>

definition scan_matches :: "int list \<Rightarrow> int list \<Rightarrow> bool" where
  "scan_matches labels hash = list_ex (\<lambda>h. Contains labels (int h)) [0..<length hash]"

text \<open>
  Concrete inputs for the reduce pass: a label stream that is \<open>[0, 1]\<close> for every
  vector, a label stream that is \<open>[7, 7]\<close> for every vector, and the centroids of the
  top labels 0 and 1 in dimension 1.
\<close>

definition two_labels :: "real list \<Rightarrow> nat \<Rightarrow> int list" where
  "two_labels vec blurValue = [0, 1]"

definition sevens :: "real list \<Rightarrow> nat \<Rightarrow> int list" where
  "sevens vec blurValue = [7, 7]"

definition cents0 :: "Centroid list" where
  "cents0 = [NewCentroid 1 0, NewCentroid 1 1]"

subsection \<open>Inputs of the projection\<close>

text \<open>
  Concrete inputs for the projection: a generator whose \<open>c\<close>-th draw is \<open>c mod 6\<close>, the
  basis vector \<open>e_j\<close> of dimension \<open>n\<close>, and the projection \<open>New(6, 1, _)\<close> builds
  from that generator.  \<open>spec_basis_coordinate\<close> follows the words of the spec, not the
  code: the coordinate of \<open>\<Pi>e_j\<close> in a row is
  \<open>scale \<cdot> (1_{j \<in> PosIdx} - 1_{j \<in> NegIdx})\<close>.
\<close>

definition draws6 :: "nat \<Rightarrow> nat" where
  "draws6 c = c mod 6"

definition basis :: "nat \<Rightarrow> nat \<Rightarrow> real list" where
  "basis n j = map (\<lambda>i. if i = j then 1 else 0) [0..<n]"

definition rp6 :: RandomProjection where
  "rp6 = \<lparr> M_f = [[0, 0, 3]], P_f = [[0]], n_f = 6, t_f = 1, random_f = 12 \<rparr>"

definition spec_basis_coordinate :: "real \<Rightarrow> int list \<Rightarrow> int list \<Rightarrow> int \<Rightarrow> real" where
  "spec_basis_coordinate scale PosIdx NegIdx j =
     scale * ((if j \<in> set PosIdx then 1 else 0) - (if j \<in> set NegIdx then 1 else 0))"

section \<open>Properties of the sketch\<close>

subsection \<open>\<open>AddLong\<close> and the constructor\<close>

lemma Hash_bucket:
  "i < length (hashA s) \<Longrightarrow> 0 < cwidth \<Longrightarrow>
   Hash cwidth s item i = Inr (bucket cwidth (hashA s) item i)"
  by (simp add: Hash_def bucket_def Let_def)

lemma bucket_less: "0 < cwidth \<Longrightarrow> bucket cwidth A item i < cwidth"
  by (simp add: bucket_def)

lemma wf_row_length: "wf_sketch cwidth s \<Longrightarrow> i < depth s \<Longrightarrow> length (table s ! i) = cwidth"
  by (simp add: wf_sketch_def list_all_length)

lemma AddLong_row_wf:
  assumes "wf_sketch cwidth s" "i < depth s"
  shows "AddLong_row cwidth s item count i =
           Inr (s\<lparr>table := bump_row cwidth (hashA s) item count i (table s)\<rparr>,
                table s ! i ! bucket cwidth (hashA s) item i + count)"
proof -
  have c: "0 < cwidth" and l: "i < length (hashA s)" and t: "i < length (table s)"
    using assms by (auto simp: wf_sketch_def)
  have b: "bucket cwidth (hashA s) item i < length (table s ! i)"
    using wf_row_length[OF assms] bucket_less[OF c] by simp
  show ?thesis
    using t b by (simp add: AddLong_row_def Hash_bucket[OF l c] Let_def bump_row_def)
qed

lemma wf_bump_row:
  assumes "wf_sketch cwidth s"
  shows "wf_sketch cwidth (s\<lparr>table := bump_row cwidth A item count i (table s)\<rparr>)"
proof (cases "i < length (table s)")
  case True
  then show ?thesis using assms
    by (auto simp: wf_sketch_def list_all_length nth_list_update bump_row_def)
next
  case False
  then have "bump_row cwidth A item count i (table s) = table s"
    by (simp add: bump_row_def list_update_beyond not_less)
  then show ?thesis using assms by (simp add: wf_sketch_def)
qed

lemma AddLong_loop_wf:
  assumes "wf_sketch cwidth s" "set rows \<subseteq> {..<depth s}"
  shows "AddLong_loop cwidth item count rows s m =
           Inr (s\<lparr>table := fold (bump_row cwidth (hashA s) item count) rows (table s)\<rparr>,
                loop_min cwidth (hashA s) item count rows (table s) m)"
  using assms
proof (induction rows arbitrary: s m)
  case Nil
  then show ?case by simp
next
  case (Cons i rows)
  let ?s1 = "s\<lparr>table := bump_row cwidth (hashA s) item count i (table s)\<rparr>"
  have i: "i < depth s" using Cons.prems by simp
  have wf1: "wf_sketch cwidth ?s1" by (rule wf_bump_row[OF Cons.prems(1)])
  have sub1: "set rows \<subseteq> {..<depth ?s1}" using Cons.prems(2) by simp
  show ?case
    by (simp add: AddLong_row_wf[OF Cons.prems(1) i] Cons.IH[OF wf1 sub1])
qed

lemma length_bump_row [simp]: "length (bump_row cwidth A item count i T) = length T"
  by (simp add: bump_row_def)

lemma bump_row_nth:
  "j < length T \<Longrightarrow> bump_row cwidth A item count i T ! j =
     (if j = i then (T ! j)[bucket cwidth A item j := T ! j ! bucket cwidth A item j + count]
      else T ! j)"
  by (auto simp: bump_row_def nth_list_update)

lemma length_fold_bump [simp]:
  "length (fold (bump_row cwidth A item count) rows T) = length T"
  by (induction rows arbitrary: T) simp_all

lemma fold_bump_nth:
  "distinct rows \<Longrightarrow> j < length T \<Longrightarrow>
   fold (bump_row cwidth A item count) rows T ! j =
     (if j \<in> set rows
      then (T ! j)[bucket cwidth A item j := T ! j ! bucket cwidth A item j + count]
      else T ! j)"
proof (induction rows arbitrary: T)
  case Nil
  then show ?case by simp
next
  case (Cons i rows)
  then show ?case by (auto simp: bump_row_nth)
qed

lemma loop_min_le: "sint (loop_min cwidth A item count rows T m) \<le> sint m"
proof (induction rows arbitrary: T m)
  case Nil
  then show ?case by simp
next
  case (Cons i rows)
  let ?v = "T ! i ! bucket cwidth A item i + count"
  have "sint (if ?v <s m then ?v else m) \<le> sint m" by (simp add: word_sless_alt)
  with Cons.IH[of "bump_row cwidth A item count i T" "if ?v <s m then ?v else m"]
  show ?case by simp
qed

lemma loop_min_lower:
  "distinct rows \<Longrightarrow> set rows \<subseteq> {..<length T} \<Longrightarrow> j \<in> set rows \<Longrightarrow>
   sint (loop_min cwidth A item count rows T m) \<le> sint (T ! j ! bucket cwidth A item j + count)"
proof (induction rows arbitrary: T m)
  case Nil
  then show ?case by simp
next
  case (Cons i rows)
  let ?v = "T ! i ! bucket cwidth A item i + count"
  let ?m1 = "if ?v <s m then ?v else m"
  let ?T1 = "bump_row cwidth A item count i T"
  show ?case
  proof (cases "j = i")
    case True
    have "sint ?m1 \<le> sint ?v" by (simp add: word_sless_alt)
    with loop_min_le[of cwidth A item count rows ?T1 ?m1] True show ?thesis by simp
  next
    case False
    then have j: "j \<in> set rows" using Cons.prems by simp
    have "j < length T" using Cons.prems by auto
    then have "?T1 ! j = T ! j" using False by (simp add: bump_row_nth)
    moreover have "sint (loop_min cwidth A item count rows ?T1 ?m1)
        \<le> sint (?T1 ! j ! bucket cwidth A item j + count)"
      using Cons.IH[of ?T1 ?m1] Cons.prems j by simp
    ultimately show ?thesis by simp
  qed
qed

lemma loop_min_attained:
  "distinct rows \<Longrightarrow> set rows \<subseteq> {..<length T} \<Longrightarrow>
   loop_min cwidth A item count rows T m = m \<or>
   (\<exists>j\<in>set rows. loop_min cwidth A item count rows T m = T ! j ! bucket cwidth A item j + count)"
proof (induction rows arbitrary: T m)
  case Nil
  then show ?case by simp
next
  case (Cons i rows)
  let ?v = "T ! i ! bucket cwidth A item i + count"
  let ?m1 = "if ?v <s m then ?v else m"
  let ?T1 = "bump_row cwidth A item count i T"
  have same: "\<And>j. j \<in> set rows \<Longrightarrow> ?T1 ! j = T ! j"
    using Cons.prems by (auto simp: bump_row_nth)
  have "loop_min cwidth A item count rows ?T1 ?m1 = ?m1 \<or>
   (\<exists>j\<in>set rows. loop_min cwidth A item count rows ?T1 ?m1 = ?T1 ! j ! bucket cwidth A item j + count)"
    using Cons.IH[of ?T1 ?m1] Cons.prems by simp
  then show ?case using same by (auto split: if_splits)
qed


lemma AddLong_wf:
  assumes "wf_sketch cwidth s"
  shows "AddLong cwidth s item count =
           Inr (s\<lparr>table := fold (bump_row cwidth (hashA s) item count) [0..<depth s] (table s),
                   size_f := size_f s + count\<rparr>,
                loop_min cwidth (hashA s) item count [1..<depth s]
                  (bump_row cwidth (hashA s) item count 0 (table s))
                  (table s ! 0 ! bucket cwidth (hashA s) item 0 + count))"
proof -
  let ?s1 = "s\<lparr>table := bump_row cwidth (hashA s) item count 0 (table s)\<rparr>"
  have d: "0 < depth s" using assms by (simp add: wf_sketch_def)
  have wf1: "wf_sketch cwidth ?s1" by (rule wf_bump_row[OF assms])
  have sub: "set [1..<depth ?s1] \<subseteq> {..<depth ?s1}" by auto
  have upt: "[0..<depth s] = 0 # [1..<depth s]" using d by (simp add: upt_conv_Cons)
  have loop: "AddLong_loop cwidth item count [1..<depth s] ?s1 m =
       Inr (s\<lparr>table := fold (bump_row cwidth (hashA s) item count) [1..<depth s]
                         (bump_row cwidth (hashA s) item count 0 (table s))\<rparr>,
            loop_min cwidth (hashA s) item count [1..<depth s]
              (bump_row cwidth (hashA s) item count 0 (table s)) m)" for m
    using AddLong_loop_wf[OF wf1 sub, of item count m] by (simp del: One_nat_def)
  show ?thesis
    by (simp add: AddLong_def AddLong_row_wf[OF assms d] loop upt del: One_nat_def)
qed

lemma wf_sketch_0: "wf_sketch 2 sketch0"
  by (simp add: wf_sketch_def sketch0_def)

lemma AddLong_effect:
  assumes "wf_sketch cwidth s"
  shows "\<exists>T' r. AddLong cwidth s item count = Inr (s\<lparr>table := T', size_f := size_f s + count\<rparr>, r)
           \<and> length T' = depth s
           \<and> (\<forall>i<depth s. T' ! i = (table s ! i)[bucket cwidth (hashA s) item i :=
                                      table s ! i ! bucket cwidth (hashA s) item i + count])
           \<and> (\<forall>i<depth s. sint r \<le> sint (table s ! i ! bucket cwidth (hashA s) item i + count))
           \<and> (\<exists>i<depth s. r = table s ! i ! bucket cwidth (hashA s) item i + count)"
proof -
  let ?A = "hashA s"
  let ?h = "\<lambda>i. bucket cwidth ?A item i"
  let ?T = "table s"
  let ?T' = "fold (bump_row cwidth ?A item count) [0..<depth s] ?T"
  let ?T1 = "bump_row cwidth ?A item count 0 ?T"
  let ?r = "loop_min cwidth ?A item count [1..<depth s] ?T1 (?T ! 0 ! ?h 0 + count)"
  have d: "0 < depth s" and len: "length ?T = depth s"
    using assms by (auto simp: wf_sketch_def)
  have run: "AddLong cwidth s item count = Inr (s\<lparr>table := ?T', size_f := size_f s + count\<rparr>, ?r)"
    by (rule AddLong_wf[OF assms])
  have row: "\<And>i. i < depth s \<Longrightarrow> ?T' ! i = (?T ! i)[?h i := ?T ! i ! ?h i + count]"
    using len by (simp add: fold_bump_nth)
  have T1: "\<And>j. 0 < j \<Longrightarrow> j < depth s \<Longrightarrow> ?T1 ! j = ?T ! j"
    using len by (simp add: bump_row_nth)
  have sub: "set [1..<depth s] \<subseteq> {..<length ?T1}" using len by auto
  have low: "sint ?r \<le> sint (?T ! i ! ?h i + count)" if i: "i < depth s" for i
  proof (cases "i = 0")
    case True
    then show ?thesis
      using loop_min_le[of cwidth ?A item count "[1..<depth s]" ?T1 "?T ! 0 ! ?h 0 + count"]
      by simp
  next
    case False
    then have "i \<in> set [1..<depth s]" using i by simp
    from loop_min_lower[OF _ sub this, of cwidth ?A item count "?T ! 0 ! ?h 0 + count"]
    show ?thesis using T1[of i] False i by simp
  qed
  have att: "\<exists>i<depth s. ?r = ?T ! i ! ?h i + count"
  proof -
    from loop_min_attained[OF _ sub, of cwidth ?A item count "?T ! 0 ! ?h 0 + count"]
    consider "?r = ?T ! 0 ! ?h 0 + count"
      | j where "j \<in> set [1..<depth s]" "?r = ?T1 ! j ! ?h j + count"
      by auto
    then show ?thesis
    proof cases
      case 1
      then show ?thesis using d by auto
    next
      case 2
      then have "0 < j" "j < depth s" by auto
      then show ?thesis using 2(2) T1[of j] by auto
    qed
  qed
  have "length ?T' = depth s" using len by simp
  then show ?thesis using run row low att by blast
qed




text \<open>
  Claim C4.  For every \<open>m\<close> (and every value of the constants, of the random draws and
  of the float64 expression and its conversion) the sketch returned by
  \<open>NewKHHCountMinSketch\<close> has a nil \<open>hashA\<close>; on it \<open>Hash\<close> fails with an index out of range for every item and every
  row, and so do \<open>AddLong\<close> and \<open>Add\<close> for every argument.
\<close>

theorem NewKHHCountMinSketch_hashA_nil:
  "hashA (NewKHHCountMinSketch cdepth cwidth random mlogm oor m) = []
   \<and> Hash cwidth (NewKHHCountMinSketch cdepth cwidth random mlogm oor m) item i = Inl IndexOutOfRange
   \<and> AddLong cwidth (NewKHHCountMinSketch cdepth cwidth random mlogm oor m) item count
       = Inl IndexOutOfRange
   \<and> Add cwidth (NewKHHCountMinSketch cdepth cwidth random mlogm oor m) e = Inl IndexOutOfRange"
  by (simp add: NewKHHCountMinSketch_def Let_def Hash_def AddLong_def AddLong_row_def Add_def)

subsection \<open>Estimates against true counts\<close>

lemma sint_add_no_wrap:
  fixes a b :: int64
  assumes "0 \<le> sint a + sint b" "sint a + sint b < 2 ^ 63"
  shows "sint (a + b) = sint a + sint b"
proof -
  have "- (2 ^ 63) \<le> sint a + sint b" using assms(1) by simp
  then show ?thesis using assms(2)
    by (simp add: sint_word_add signed_take_bit_int_eq_self)
qed

lemma mass_append:
  "mass cwidth A i j (calls @ [(x, c)]) =
     mass cwidth A i j calls + (if bucket cwidth A x i = j then sint c else 0)"
  by (simp add: mass_def)

lemma true_count_le_mass:
  "nonneg_counts calls \<Longrightarrow> true_count x calls \<le> mass cwidth A i (bucket cwidth A x i) calls"
  unfolding true_count_def mass_def nonneg_counts_def
  by (induction calls) (auto intro: add_mono)

lemma mass_le_total:
  "nonneg_counts calls \<Longrightarrow> mass cwidth A i j calls \<le> total_count calls"
  unfolding total_count_def mass_def nonneg_counts_def
  by (induction calls) (auto intro: add_mono)

lemma mass_nonneg:
  "nonneg_counts calls \<Longrightarrow> 0 \<le> mass cwidth A i j calls"
  unfolding mass_def nonneg_counts_def
  by (induction calls) auto


lemma total_count_append:
  "total_count (xs @ ys) = total_count xs + total_count ys"
  by (simp add: total_count_def)

lemma total_count_nonneg: "nonneg_counts calls \<Longrightarrow> 0 \<le> total_count calls"
  unfolding total_count_def nonneg_counts_def
  by (induction calls) auto

lemma nonneg_counts_append:
  "nonneg_counts (xs @ ys) = (nonneg_counts xs \<and> nonneg_counts ys)"
  by (simp add: nonneg_counts_def)

lemma nonneg_counts_Cons:
  "nonneg_counts ((x, c) # calls) = (0 \<le> sint c \<and> nonneg_counts calls)"
  by (simp add: nonneg_counts_def)

lemma nonneg_counts_Nil: "nonneg_counts []"
  by (simp add: nonneg_counts_def)

lemma total_count_Cons: "total_count ((x, c) # calls) = sint c + total_count calls"
  by (simp add: total_count_def)

lemma total_count_Nil: "total_count [] = 0"
  by (simp add: total_count_def)

lemma AddLong_step:
  assumes wf: "wf_sketch cwidth s"
    and ok: "cells_ok cwidth s calls"
    and nn: "nonneg_counts (calls @ [(x, c)])"
    and tot: "total_count (calls @ [(x, c)]) < 2 ^ 63"
  shows "\<exists>s' r. AddLong cwidth s x c = Inr (s', r) \<and> wf_sketch cwidth s'
           \<and> cells_ok cwidth s' (calls @ [(x, c)])
           \<and> true_count x (calls @ [(x, c)]) \<le> sint r"
proof -
  let ?A = "hashA s"
  let ?h = "\<lambda>i. bucket cwidth ?A x i"
  let ?calls' = "calls @ [(x, c)]"
  from AddLong_effect[OF wf, of x c] obtain T' r where
    run: "AddLong cwidth s x c = Inr (s\<lparr>table := T', size_f := size_f s + c\<rparr>, r)"
    and len: "length T' = depth s"
    and row: "\<forall>i<depth s. T' ! i = (table s ! i)[?h i := table s ! i ! ?h i + c]"
    and att: "\<exists>i<depth s. r = table s ! i ! ?h i + c"
    by blast
  let ?s' = "s\<lparr>table := T', size_f := size_f s + c\<rparr>"
  have cw: "0 < cwidth" using wf by (simp add: wf_sketch_def)
  have rl: "\<And>i. i < depth s \<Longrightarrow> length (table s ! i) = cwidth"
    using wf_row_length[OF wf] by simp
  have wf': "wf_sketch cwidth ?s'"
    using wf len row rl by (auto simp: wf_sketch_def list_all_length)
  have bumped: "sint (table s ! i ! ?h i + c) = mass cwidth ?A i (?h i) ?calls'"
    if i: "i < depth s" for i
  proof -
    have old: "sint (table s ! i ! ?h i) = mass cwidth ?A i (?h i) calls"
      using ok i bucket_less[OF cw] by (simp add: cells_ok_def)
    have new: "mass cwidth ?A i (?h i) ?calls' = mass cwidth ?A i (?h i) calls + sint c"
      by (simp add: mass_append)
    have "0 \<le> mass cwidth ?A i (?h i) ?calls'" by (rule mass_nonneg[OF nn])
    moreover have "mass cwidth ?A i (?h i) ?calls' < 2 ^ 63"
      using mass_le_total[OF nn, of cwidth ?A i "?h i"] tot by linarith
    ultimately show ?thesis using old new sint_add_no_wrap[of "table s ! i ! ?h i" c] by simp
  qed
  have ok': "cells_ok cwidth ?s' ?calls'"
    unfolding cells_ok_def
  proof (intro allI impI)
    fix i j assume i: "i < depth ?s'" and j: "j < cwidth"
    then have i': "i < depth s" by simp
    show "sint (table ?s' ! i ! j) = mass cwidth (hashA ?s') i j ?calls'"
    proof (cases "j = ?h i")
      case True
      then show ?thesis using row i' rl[OF i'] j bumped[OF i'] by simp
    next
      case False
      then have "sint (table ?s' ! i ! j) = mass cwidth ?A i j calls"
        using row i' ok j by (simp add: cells_ok_def)
      then show ?thesis using False by (simp add: mass_append)
    qed
  qed
  from att obtain i0 where i0: "i0 < depth s" and r: "r = table s ! i0 ! ?h i0 + c" by blast
  have "true_count x ?calls' \<le> sint r"
    using true_count_le_mass[OF nn, of x cwidth ?A i0] bumped[OF i0] r by simp
  then show ?thesis using run wf' ok' by blast
qed

lemma run_AddLong_estimates:
  assumes "wf_sketch cwidth s" "cells_ok cwidth s seen"
    "nonneg_counts (seen @ calls)" "total_count (seen @ calls) < 2 ^ 63"
  shows "\<exists>s' rs. run_AddLong cwidth s calls = Inr (s', rs) \<and> length rs = length calls
           \<and> (\<forall>n<length calls.
                 true_count (fst (calls ! n)) (seen @ take (Suc n) calls) \<le> sint (rs ! n))"
  using assms
proof (induction calls arbitrary: s seen)
  case Nil
  then show ?case by simp
next
  case (Cons call calls)
  obtain x c where call: "call = (x, c)" by (cases call)
  let ?seen' = "seen @ [(x, c)]"
  have nn1: "nonneg_counts ?seen'" and nn2: "nonneg_counts calls"
    using Cons.prems(3) call
    by (simp_all add: nonneg_counts_append nonneg_counts_Cons nonneg_counts_Nil)
  have tot1: "total_count ?seen' < 2 ^ 63"
    using Cons.prems(4) call total_count_nonneg[OF nn2]
    by (simp add: total_count_append total_count_Cons total_count_Nil)
  from AddLong_step[OF Cons.prems(1,2) nn1 tot1] obtain s1 r where
    run1: "AddLong cwidth s x c = Inr (s1, r)" and wf1: "wf_sketch cwidth s1"
    and ok1: "cells_ok cwidth s1 ?seen'" and est: "true_count x ?seen' \<le> sint r"
    by blast
  have nn': "nonneg_counts (?seen' @ calls)" and tot': "total_count (?seen' @ calls) < 2 ^ 63"
    using Cons.prems(3,4) call
    by (simp_all add: nonneg_counts_append nonneg_counts_Cons nonneg_counts_Nil
          total_count_append total_count_Cons total_count_Nil)
  from Cons.IH[OF wf1 ok1 nn' tot'] obtain s' rs where
    run: "run_AddLong cwidth s1 calls = Inr (s', rs)" and len: "length rs = length calls"
    and ests: "\<forall>n<length calls.
                 true_count (fst (calls ! n)) (?seen' @ take (Suc n) calls) \<le> sint (rs ! n)"
    by blast
  have "run_AddLong cwidth s (call # calls) = Inr (s', r # rs)"
    using run1 run call by simp
  moreover have "length (r # rs) = length (call # calls)" using len by simp
  moreover have "\<forall>n<length (call # calls).
      true_count (fst ((call # calls) ! n)) (seen @ take (Suc n) (call # calls))
        \<le> sint ((r # rs) ! n)"
  proof (intro allI impI)
    fix n assume n: "n < length (call # calls)"
    show "true_count (fst ((call # calls) ! n)) (seen @ take (Suc n) (call # calls))
        \<le> sint ((r # rs) ! n)"
    proof (cases n)
      case 0
      then show ?thesis using est call by simp
    next
      case (Suc n')
      then have "n' < length calls" using n by simp
      with ests have "true_count (fst (calls ! n')) (?seen' @ take (Suc n') calls) \<le> sint (rs ! n')"
        by blast
      then show ?thesis using Suc call by simp
    qed
  qed
  ultimately show ?case by blast
qed

lemma zero_table_cells_ok:
  assumes "wf_sketch cwidth s" "zero_table s"
  shows "cells_ok cwidth s []"
  using assms
  by (auto simp: cells_ok_def zero_table_def wf_sketch_def mass_def list_all_length)

text \<open>
  Claim C2, as amended.  Start from a well-formed sketch whose table is all zero and run
  any sequence of \<open>AddLong\<close> calls whose counts are all nonnegative and whose total
  stays below \<open>2^63\<close>.  Then no call fails, and the estimate each call returns for its
  item is at least the total count added for that item so far, that call included.
  As stated, for every sequence of calls, the claim fails: a negative count added for
  an item sharing every bucket lowers the estimate (the counterexample below), and a
  total reaching \<open>2^63\<close> wraps a counter to a negative value.
\<close>

theorem AddLong_never_underestimates:
  assumes "wf_sketch cwidth s" "zero_table s" "nonneg_counts calls" "total_count calls < 2 ^ 63"
  shows "\<exists>s' rs. run_AddLong cwidth s calls = Inr (s', rs) \<and> length rs = length calls
           \<and> (\<forall>n<length calls.
                 true_count (fst (calls ! n)) (take (Suc n) calls) \<le> sint (rs ! n))"
  using run_AddLong_estimates[OF assms(1) zero_table_cells_ok[OF assms(1,2)], of calls] assms(3,4)
  by simp



lemma upt_1_2: "[Suc 0..<2] = [Suc 0]"
  by (simp add: upt_conv_Cons)

lemma AddLong_sketch0_eval:
  "AddLong 2 (sketch0\<lparr>table := [[a, b], [c, d]], size_f := n\<rparr>) 2 v
     = Inr (sketch0\<lparr>table := [[a + v, b], [c + v, d]], size_f := n + v\<rparr>,
            if c + v <s a + v then c + v else a + v)"
  "AddLong 2 (sketch0\<lparr>table := [[a, b], [c, d]], size_f := n\<rparr>) 4 v
     = Inr (sketch0\<lparr>table := [[a + v, b], [c + v, d]], size_f := n + v\<rparr>,
            if c + v <s a + v then c + v else a + v)"
  by (simp_all add: sketch0_def AddLong_def AddLong_row_def Hash_def PRIME_MODULUS_def Let_def
        upt_1_2)

lemma sketch0_unfold: "sketch0 = sketch0\<lparr>table := [[0, 0], [0, 0]], size_f := 0\<rparr>"
  by (simp add: sketch0_def)

theorem AddLong_never_underestimates_witness:
  "wf_sketch 2 sketch0 \<and> zero_table sketch0 \<and> nonneg_counts calls_ok
   \<and> total_count calls_ok < 2 ^ 63
   \<and> (\<exists>s' rs. run_AddLong 2 sketch0 calls_ok = Inr (s', rs) \<and> length rs = length calls_ok
           \<and> (\<forall>n<length calls_ok.
                 true_count (fst (calls_ok ! n)) (take (Suc n) calls_ok) \<le> sint (rs ! n)))"
proof -
  have a: "zero_table sketch0" by (simp add: zero_table_def sketch0_def)
  have b: "nonneg_counts calls_ok" by (simp add: nonneg_counts_def calls_ok_def)
  have c: "total_count calls_ok < 2 ^ 63" by (simp add: total_count_def calls_ok_def)
  show ?thesis
    using AddLong_never_underestimates[OF wf_sketch_0 a b c] wf_sketch_0 a b c by blast
qed

text \<open>
  Counterexample to C2 as stated: on the zero 2 x 2 sketch with coefficients 3 and 5,
  \<open>AddLong(4, -1)\<close> then \<open>AddLong(2, 1)\<close> return -1 and 0 (items 4 and 2 share bucket 0
  in both rows), while the total count added for item 2 is 1.
\<close>

theorem AddLong_underestimates_counterexample:
  "map_sum id snd (run_AddLong 2 sketch0 calls_neg) = Inr [- 1, 0]
   \<and> true_count 2 calls_neg = 1
   \<and> sint (0 :: int64) < true_count 2 calls_neg"
  apply (subst sketch0_unfold)
  apply (simp add: AddLong_sketch0_eval true_count_def calls_neg_def)
  done

text \<open>
  The wrap-around: after \<open>AddLong(2, 2^63 - 1)\<close>, \<open>AddLong(2, 1)\<close> returns \<open>-2^63\<close>.
\<close>

lemma AddLong_wraps_example:
  "map_sum id (map sint \<circ> snd) (run_AddLong 2 sketch0 calls_wrap)
     = Inr [9223372036854775807, - 9223372036854775808]
   \<and> true_count 2 calls_wrap = 9223372036854775808"
  apply (subst sketch0_unfold)
  apply (simp add: AddLong_sketch0_eval true_count_def calls_wrap_def)
  done
subsection \<open>\<open>Add\<close> and the heap\<close>

lemma AddLong_row_frame:
  "AddLong_row cwidth s item count i = Inr (s', v) \<Longrightarrow> \<exists>T. s' = s\<lparr>table := T\<rparr>"
  by (auto simp: AddLong_row_def Let_def split: sum.splits if_splits)

lemma AddLong_loop_frame:
  "AddLong_loop cwidth item count rows s m = Inr (s', r) \<Longrightarrow> \<exists>T. s' = s\<lparr>table := T\<rparr>"
proof (induction rows arbitrary: s m)
  case Nil
  have "s = s\<lparr>table := table s\<rparr>" by simp
  with Nil show ?case by (metis AddLong_loop.simps(1) Inr_inject prod.inject)
next
  case (Cons i rows)
  from Cons.prems obtain s1 v where
    r1: "AddLong_row cwidth s item count i = Inr (s1, v)"
    and r2: "AddLong_loop cwidth item count rows s1 (if v <s m then v else m) = Inr (s', r)"
    by (auto split: sum.splits)
  from AddLong_row_frame[OF r1] obtain T1 where "s1 = s\<lparr>table := T1\<rparr>" by blast
  moreover from Cons.IH[OF r2] obtain T where "s' = s1\<lparr>table := T\<rparr>" by blast
  ultimately have "s' = s\<lparr>table := T\<rparr>" by simp
  then show ?case by blast
qed

lemma AddLong_frame:
  assumes "AddLong cwidth s item count = Inr (s', r)"
  shows "\<exists>T. s' = s\<lparr>table := T, size_f := size_f s + count\<rparr>"
proof -
  from assms obtain s1 v s2 where
    r1: "AddLong_row cwidth s item count 0 = Inr (s1, v)"
    and r2: "AddLong_loop cwidth item count [1..<depth s1] s1 v = Inr (s2, r)"
    and s': "s' = s2\<lparr>size_f := size_f s2 + count\<rparr>"
    by (auto simp: AddLong_def split: sum.splits simp del: One_nat_def)
  from AddLong_row_frame[OF r1] obtain T1 where "s1 = s\<lparr>table := T1\<rparr>" by blast
  moreover from AddLong_loop_frame[OF r2] obtain T where "s2 = s1\<lparr>table := T\<rparr>" by blast
  ultimately have "s' = s\<lparr>table := T, size_f := size_f s + count\<rparr>" using s' by simp
  then show ?thesis by blast
qed

lemma Poll_Some:
  assumes "q \<noteq> []"
  shows "\<exists>m. Poll cl q = Some (m, remove1 m q) \<and> m \<in> set q
           \<and> (\<forall>y\<in>set q. estimate cl m \<le> estimate cl y)"
proof -
  let ?m = "arg_min_list (estimate cl) q"
  have "?m \<in> set q" using assms by (rule arg_min_list_in)
  moreover have "\<forall>y\<in>set q. estimate cl ?m \<le> estimate cl y"
    using f_arg_min_list_f[OF assms, of "estimate cl"] by simp
  ultimately show ?thesis using assms by (simp add: Poll_def Let_def)
qed





lemma inserted_nonempty: "inserted s e \<noteq> []"
  by (simp add: inserted_def Enqueue_def)

lemma Add_unfold:
  assumes "AddLong cwidth s (HashCode e) 1 = Inr (s\<lparr>table := T, size_f := size_f s + 1\<rparr>, r)"
  shows "Add cwidth s e =
      (if Size (inserted s e) > k_f s then
         (case Poll ((countlist s)(HashCode e \<mapsto> r)) (inserted s e) of
            None \<Rightarrow> Inl EmptyQueue
          | Some (removed, q) \<Rightarrow>
              Inr (s\<lparr>table := T, size_f := size_f s + 1,
                     countlist := (countlist s)(HashCode e \<mapsto> r),
                     priorityQueue := q,
                     items := ((items s)(HashCode e \<mapsto> e))(removed := None)\<rparr>))
       else Inr (s\<lparr>table := T, size_f := size_f s + 1,
                   countlist := (countlist s)(HashCode e \<mapsto> r),
                   priorityQueue := inserted s e,
                   items := (items s)(HashCode e \<mapsto> e)\<rparr>))"
  by (cases "items s (HashCode e)")
     (simp_all add: Add_def inserted_def Let_def assms split: option.split)

lemma Add_effect:
  assumes "Add cwidth s e = Inr s'"
  shows "\<exists>T r. AddLong cwidth s (HashCode e) 1 = Inr (s\<lparr>table := T, size_f := size_f s + 1\<rparr>, r)
           \<and> table s' = T \<and> size_f s' = size_f s + 1 \<and> k_f s' = k_f s
           \<and> depth s' = depth s \<and> hashA s' = hashA s
           \<and> topcent s' = topcent s \<and> counts s' = counts s
           \<and> countlist s' = (countlist s)(HashCode e \<mapsto> r)
           \<and> (if Size (inserted s e) > k_f s
               then \<exists>removed. Poll (countlist s') (inserted s e) = Some (removed, priorityQueue s')
                      \<and> removed \<in> set (inserted s e)
                      \<and> (\<forall>y\<in>set (inserted s e).
                            estimate (countlist s') removed \<le> estimate (countlist s') y)
                      \<and> priorityQueue s' = remove1 removed (inserted s e)
                      \<and> items s' = ((items s)(HashCode e \<mapsto> e))(removed := None)
               else priorityQueue s' = inserted s e \<and> items s' = (items s)(HashCode e \<mapsto> e))"
proof -
  from assms obtain s1 r where al: "AddLong cwidth s (HashCode e) 1 = Inr (s1, r)"
    by (auto simp: Add_def split: sum.splits)
  from AddLong_frame[OF al] obtain T where s1: "s1 = s\<lparr>table := T, size_f := size_f s + 1\<rparr>"
    by blast
  let ?cl = "(countlist s)(HashCode e \<mapsto> r)"
  have al': "AddLong cwidth s (HashCode e) 1 = Inr (s\<lparr>table := T, size_f := size_f s + 1\<rparr>, r)"
    using al s1 by simp
  note body = Add_unfold[OF al']
  show ?thesis
  proof (cases "Size (inserted s e) > k_f s")
    case True
    from Poll_Some[OF inserted_nonempty, of ?cl s e] obtain m where
      p: "Poll ?cl (inserted s e) = Some (m, remove1 m (inserted s e))" and m: "m \<in> set (inserted s e)"
      and least: "\<forall>y\<in>set (inserted s e). estimate ?cl m \<le> estimate ?cl y"
      by blast
    have "s' = s\<lparr>table := T, size_f := size_f s + 1, countlist := ?cl,
                  priorityQueue := remove1 m (inserted s e),
                  items := ((items s)(HashCode e \<mapsto> e))(m := None)\<rparr>"
      using assms body True p by simp
    then show ?thesis using al' True p m least by auto
  next
    case False
    then have "s' = s\<lparr>table := T, size_f := size_f s + 1, countlist := ?cl,
                  priorityQueue := inserted s e, items := (items s)(HashCode e \<mapsto> e)\<rparr>"
      using assms body by simp
    then show ?thesis using al' False by auto
  qed
qed



lemma AddLong_preserves_wf:
  assumes "wf_sketch cwidth s"
  shows "\<exists>T r. AddLong cwidth s item count = Inr (s\<lparr>table := T, size_f := size_f s + count\<rparr>, r)
           \<and> wf_sketch cwidth (s\<lparr>table := T, size_f := size_f s + count\<rparr>)"
proof -
  from AddLong_effect[OF assms, of item count] obtain T' r where
    run: "AddLong cwidth s item count = Inr (s\<lparr>table := T', size_f := size_f s + count\<rparr>, r)"
    and len: "length T' = depth s"
    and row: "\<forall>i<depth s. T' ! i = (table s ! i)[bucket cwidth (hashA s) item i :=
                 table s ! i ! bucket cwidth (hashA s) item i + count]"
    by blast
  have "wf_sketch cwidth (s\<lparr>table := T', size_f := size_f s + count\<rparr>)"
    using assms len row wf_row_length[OF assms] by (auto simp: wf_sketch_def list_all_length)
  then show ?thesis using run by blast
qed

lemma Add_wf:
  assumes "wf_sketch cwidth s"
  shows "\<exists>s'. Add cwidth s e = Inr s' \<and> wf_sketch cwidth s'"
proof -
  from AddLong_preserves_wf[OF assms, of "HashCode e" 1] obtain T r where
    al: "AddLong cwidth s (HashCode e) 1 = Inr (s\<lparr>table := T, size_f := size_f s + 1\<rparr>, r)"
    and wf: "wf_sketch cwidth (s\<lparr>table := T, size_f := size_f s + 1\<rparr>)"
    by blast
  from Poll_Some[OF inserted_nonempty, of "(countlist s)(HashCode e \<mapsto> r)" s e] obtain m where
    p: "Poll ((countlist s)(HashCode e \<mapsto> r)) (inserted s e) = Some (m, remove1 m (inserted s e))"
    by blast
  show ?thesis using wf p by (auto simp: Add_unfold[OF al] wf_sketch_def)
qed








lemma klogk_table_2: "klogk mlogm_table oor 2 = 1"
proof -
  have "\<lfloor>6243314768165359 / 4503599627370496 :: real\<rfloor> = 1"
    by (intro floor_unique) simp_all
  then show ?thesis by (simp add: klogk_def mlogm_table_def float_to_int_def trunc_def)
qed

lemma sketch0_constructed: "example_sketch 2 = sketch0"
  by (simp add: example_sketch_def sketch0_def NewKHHCountMinSketch_def Let_def klogk_table_2
        NewInt64PriorityQueue_def numeral_2_eq_2)






text \<open>
  Claim C6, as amended.  Whenever the heap size exceeds the capacity after the
  insertion step of \<open>Add\<close>, the entry of minimum estimated count is polled from the
  heap and its key is deleted from the membership map \<open>items\<close> only: \<open>Add\<close> never
  deletes from the count map, so the evicted label keeps its count-map entry (given
  that every label of the heap had one before), and the keys of the count map after
  \<open>Add(e)\<close> are those before it together with the key of \<open>e\<close>.
\<close>

theorem Add_evicts_membership_only:
  assumes "Add cwidth s e = Inr s'"
    and "list_all (\<lambda>x. countlist s (HashCode x) \<noteq> None) (priorityQueue s)"
    and "Size (inserted s e) > k_f s"
  shows "\<exists>removed. Poll (countlist s') (inserted s e) = Some (removed, priorityQueue s')
           \<and> list_all (\<lambda>y. estimate (countlist s') removed \<le> estimate (countlist s') y)
                (inserted s e)
           \<and> items s' = ((items s)(HashCode e \<mapsto> e))(removed := None)
           \<and> items s' removed = None
           \<and> countlist s' (HashCode removed) \<noteq> None
           \<and> dom (countlist s') = insert (HashCode e) (dom (countlist s))"
proof -
  from Add_effect[OF assms(1)] assms(3) obtain r removed where
    cl: "countlist s' = (countlist s)(HashCode e \<mapsto> r)"
    and p: "Poll (countlist s') (inserted s e) = Some (removed, priorityQueue s')"
    and mem: "removed \<in> set (inserted s e)"
    and least: "\<forall>y\<in>set (inserted s e). estimate (countlist s') removed \<le> estimate (countlist s') y"
    and it: "items s' = ((items s)(HashCode e \<mapsto> e))(removed := None)"
    by (auto split: if_splits)
  have "set (inserted s e) \<subseteq> insert e (set (priorityQueue s))"
    by (auto simp: inserted_def Enqueue_def Dequeue_def dest: notin_set_remove1)
  then have "removed = e \<or> removed \<in> set (priorityQueue s)" using mem by auto
  then have "countlist s' (HashCode removed) \<noteq> None"
    using assms(2) cl by (auto simp: list_all_iff)
  moreover have "dom (countlist s') = insert (HashCode e) (dom (countlist s))"
    using cl by simp
  moreover have "items s' removed = None" using it by simp
  ultimately show ?thesis using p least it by (auto simp: list_all_iff)
qed

theorem Add_evicts_membership_only_witness:
  "\<exists>s'. Add 2 sketch1 9 = Inr s'
      \<and> list_all (\<lambda>x. countlist sketch1 (HashCode x) \<noteq> None) (priorityQueue sketch1)
      \<and> Size (inserted sketch1 9) > k_f sketch1
      \<and> (\<exists>removed. Poll (countlist s') (inserted sketch1 9) = Some (removed, priorityQueue s')
           \<and> list_all (\<lambda>y. estimate (countlist s') removed \<le> estimate (countlist s') y)
                (inserted sketch1 9)
           \<and> items s' = ((items sketch1)(HashCode 9 \<mapsto> 9))(removed := None)
           \<and> items s' removed = None
           \<and> countlist s' (HashCode removed) \<noteq> None
           \<and> dom (countlist s') = insert (HashCode 9) (dom (countlist sketch1)))"
proof -
  have wf: "wf_sketch 2 sketch1" by (simp add: wf_sketch_def sketch1_def)
  from Add_wf[OF wf, of 9] obtain s' where a: "Add 2 sketch1 9 = Inr s'" by blast
  have b: "list_all (\<lambda>x. countlist sketch1 (HashCode x) \<noteq> None) (priorityQueue sketch1)"
    by (simp add: sketch1_def HashCode_def)
  have c: "Size (inserted sketch1 9) > k_f sketch1"
    by (simp add: sketch1_def inserted_def HashCode_def Size_def Enqueue_def)
  from Add_evicts_membership_only[OF a b c] a b c show ?thesis by blast
qed

text \<open>
  Counterexample to C6 as stated: with capacity 1 and the heap holding label 7 (count
  1), \<open>Add(9)\<close> evicts 7 from the heap and from \<open>items\<close>, and \<open>countlist[7]\<close> is
  still 1.
\<close>

theorem Add_keeps_count_of_evicted_counterexample:
  "map_sum id (heap_view 7) (Add 2 sketch1 9) = Inr ([9], None, Some 1)"
  by (simp add: heap_view_def sketch1_def Add_def AddLong_def AddLong_row_def Hash_def PRIME_MODULUS_def
        Let_def HashCode_def Enqueue_def Dequeue_def Size_def Poll_def estimate_def lookup0_def
        upt_conv_Cons)

text \<open>The state \<open>sketch1\<close> is the one \<open>Add(7)\<close> reaches from \<open>sketch0\<close>.\<close>

lemma sketch1_reached:
  "map_sum id (\<lambda>s. (table s, size_f s, priorityQueue s, k_f s, items s 7, countlist s 7,
                    topcent s, counts s)) (Add 2 sketch0 7)
     = Inr (table sketch1, size_f sketch1, priorityQueue sketch1, k_f sketch1, items sketch1 7,
            countlist sketch1 7, topcent sketch1, counts sketch1)"
  by (simp add: sketch0_def sketch1_def Add_def AddLong_def AddLong_row_def Hash_def
        PRIME_MODULUS_def
        Let_def HashCode_def Enqueue_def Dequeue_def Size_def Poll_def estimate_def lookup0_def
        upt_conv_Cons)

subsection \<open>\<open>GetTop\<close> and the capacity\<close>

lemma count_list_remove1_split:
  "m \<in> set q \<Longrightarrow> count_list q x = (if x = m then 1 else 0) + count_list (remove1 m q) x"
  by (induction q) auto

lemma GetTop_loop_drains:
  assumes "topcent s = Some ts" "counts s = Some cs"
  shows "\<exists>d. GetTop_loop s = Inr (s\<lparr>priorityQueue := [], topcent := Some (ts @ d),
                 counts := Some (cs @ map (\<lambda>x. lookup0 (countlist s) (HashCode x)) d)\<rparr>)
           \<and> (\<forall>x. count_list d x = count_list (priorityQueue s) x)
           \<and> sorted (map (estimate (countlist s)) d)"
  using assms
proof (induction "length (priorityQueue s)" arbitrary: s ts cs)
  case 0
  then have q: "priorityQueue s = []" by simp
  have "GetTop_loop s = Inr s" using q by (subst GetTop_loop.simps) (simp add: IsEmpty_def)
  moreover have "s = s\<lparr>priorityQueue := [], topcent := Some (ts @ []),
                 counts := Some (cs @ map (\<lambda>x. lookup0 (countlist s) (HashCode x)) [])\<rparr>"
    using q 0 by simp
  ultimately show ?case using q by (intro exI[of _ "[]"]) simp
next
  case (Suc n)
  let ?q = "priorityQueue s"
  let ?cl = "countlist s"
  have ne: "?q \<noteq> []" using Suc.hyps(2) by auto
  from Poll_Some[OF ne, of ?cl] obtain m where
    p: "Poll ?cl ?q = Some (m, remove1 m ?q)" and m: "m \<in> set ?q"
    and least: "\<forall>y\<in>set ?q. estimate ?cl m \<le> estimate ?cl y"
    by blast
  let ?s1 = "s\<lparr>priorityQueue := remove1 m ?q, topcent := append_slice (topcent s) m,
                  counts := append_slice (counts s) (lookup0 ?cl (HashCode m))\<rparr>"
  have step: "GetTop_loop s = GetTop_loop ?s1"
    using ne p by (subst GetTop_loop.simps) (simp add: IsEmpty_def)
  have len: "n = length (priorityQueue ?s1)"
    using Suc.hyps(2) m by (simp add: length_remove1)
  have t1: "topcent ?s1 = Some (ts @ [m])" and c1: "counts ?s1 = Some (cs @ [lookup0 ?cl (HashCode m)])"
    using Suc.prems by (simp_all add: append_slice_def)
  from Suc.hyps(1)[OF len t1 c1] obtain d where
    run: "GetTop_loop ?s1 = Inr (?s1\<lparr>priorityQueue := [], topcent := Some ((ts @ [m]) @ d),
             counts := Some ((cs @ [lookup0 ?cl (HashCode m)])
                        @ map (\<lambda>x. lookup0 (countlist ?s1) (HashCode x)) d)\<rparr>)"
    and perm: "\<forall>x. count_list d x = count_list (priorityQueue ?s1) x"
    and srt: "sorted (map (estimate (countlist ?s1)) d)"
    by blast
  have perm1: "\<And>x. count_list d x = count_list (remove1 m ?q) x"
    using perm by (simp del: count_list_remove1)
  have "set d \<subseteq> set ?q"
  proof
    fix y assume yd: "y \<in> set d"
    have "count_list d y \<noteq> 0" using yd by (simp add: count_list_0_iff)
    then have "count_list (remove1 m ?q) y \<noteq> 0"
      using perm1[of y] by (simp del: count_list_remove1)
    then have "y \<in> set (remove1 m ?q)"
      by (simp add: count_list_0_iff del: count_list_remove1)
    then show "y \<in> set ?q" using set_remove1_subset[of m ?q] by blast
  qed
  then have srt': "sorted (map (estimate ?cl) (m # d))" using srt least by auto
  have perm': "\<forall>x. count_list (m # d) x = count_list ?q x"
  proof
    fix x
    show "count_list (m # d) x = count_list ?q x"
      using perm1[of x] count_list_remove1_split[OF m, of x] by (simp del: count_list_remove1)
  qed
  have "GetTop_loop s = Inr (s\<lparr>priorityQueue := [], topcent := Some (ts @ (m # d)),
                 counts := Some (cs @ map (\<lambda>x. lookup0 ?cl (HashCode x)) (m # d))\<rparr>)"
    using step run by simp
  then show ?case using perm' srt' by blast
qed


lemma GetTop_cached: "topcent s \<noteq> None \<Longrightarrow> GetTop s = Inr (s, topcent s)"
  by (simp add: GetTop_def)

lemma GetTop_first:
  assumes "topcent s = None"
  shows "\<exists>d. GetTop s = Inr (s\<lparr>priorityQueue := [], topcent := Some d,
                  counts := Some (map (\<lambda>x. lookup0 (countlist s) (HashCode x)) d)\<rparr>, Some d)
           \<and> (\<forall>x. count_list d x = count_list (priorityQueue s) x)
           \<and> sorted (map (estimate (countlist s)) d)"
proof -
  let ?s0 = "s\<lparr>topcent := Some [], counts := Some []\<rparr>"
  from GetTop_loop_drains[of ?s0 "[]" "[]"] obtain d where
    run: "GetTop_loop ?s0 = Inr (?s0\<lparr>priorityQueue := [], topcent := Some ([] @ d),
             counts := Some ([] @ map (\<lambda>x. lookup0 (countlist ?s0) (HashCode x)) d)\<rparr>)"
    and perm: "\<forall>x. count_list d x = count_list (priorityQueue ?s0) x"
    and srt: "sorted (map (estimate (countlist ?s0)) d)"
    by auto
  have "GetTop s = Inr (s\<lparr>priorityQueue := [], topcent := Some d,
                  counts := Some (map (\<lambda>x. lookup0 (countlist s) (HashCode x)) d)\<rparr>, Some d)"
    using assms run by (simp add: GetTop_def)
  then show ?thesis using perm srt by auto
qed

text \<open>
  Claim C10, as amended.  \<open>GetTop\<close> never fails, and a second call without reset is not
  an error: it returns the sequence cached by the first call and leaves the state as
  the first call left it.  The first call (the one that finds \<open>topcent\<close> nil) drains
  the heap: afterwards the heap is empty, the returned sequence holds exactly the labels
  the heap held, in ascending order of estimated count (min-first, the poll order), and
  \<open>counts\<close> is the parallel array of their count-map entries.
\<close>

theorem GetTop_drains_once_then_cached:
  "\<exists>s1 r. GetTop s = Inr (s1, r) \<and> GetTop_twice s = Inr (s1, r) \<and> r \<noteq> None
      \<and> (topcent s = None \<longrightarrow>
            priorityQueue s1 = []
            \<and> (\<exists>d. r = Some d \<and> topcent s1 = Some d
                  \<and> counts s1 = Some (map (\<lambda>x. lookup0 (countlist s) (HashCode x)) d)
                  \<and> (\<forall>x. count_list d x = count_list (priorityQueue s) x)
                  \<and> sorted (map (estimate (countlist s)) d)))
      \<and> (topcent s \<noteq> None \<longrightarrow> s1 = s \<and> r = topcent s)"
proof (cases "topcent s")
  case None
  from GetTop_first[OF None] obtain d where
    g: "GetTop s = Inr (s\<lparr>priorityQueue := [], topcent := Some d,
                  counts := Some (map (\<lambda>x. lookup0 (countlist s) (HashCode x)) d)\<rparr>, Some d)"
    and perm: "\<forall>x. count_list d x = count_list (priorityQueue s) x"
    and srt: "sorted (map (estimate (countlist s)) d)"
    by blast
  let ?s1 = "s\<lparr>priorityQueue := [], topcent := Some d,
                  counts := Some (map (\<lambda>x. lookup0 (countlist s) (HashCode x)) d)\<rparr>"
  have "GetTop ?s1 = Inr (?s1, Some d)" using GetTop_cached[of ?s1] by simp
  then have "GetTop_twice s = Inr (?s1, Some d)" using g by (simp add: GetTop_twice_def)
  then show ?thesis using g perm srt None by auto
next
  case (Some ts)
  then have g: "GetTop s = Inr (s, topcent s)" by (simp add: GetTop_cached)
  then have "GetTop_twice s = Inr (s, topcent s)" by (simp add: GetTop_twice_def)
  then show ?thesis using g Some by auto
qed

theorem GetTop_drains_once_then_cached_witness:
  "topcent sketch2 = None \<and>
   (\<exists>s1 d. GetTop sketch2 = Inr (s1, Some d) \<and> GetTop_twice sketch2 = Inr (s1, Some d)
      \<and> priorityQueue s1 = [] \<and> topcent s1 = Some d
      \<and> counts s1 = Some (map (\<lambda>x. lookup0 (countlist sketch2) (HashCode x)) d)
      \<and> (\<forall>x. count_list d x = count_list (priorityQueue sketch2) x)
      \<and> sorted (map (estimate (countlist sketch2)) d))"
proof -
  have n: "topcent sketch2 = None" by (simp add: sketch2_def)
  from GetTop_drains_once_then_cached[of sketch2] n show ?thesis by auto
qed

text \<open>
  Counterexample to C10 as stated: on \<open>sketch2\<close> the first call returns \<open>[9, 7]\<close> and
  the second call returns \<open>[9, 7]\<close> again, not an error.
\<close>

theorem GetTop_second_call_no_error_counterexample:
  "map_sum id snd (GetTop sketch2) = Inr (Some [9, 7])
   \<and> map_sum id snd (GetTop_twice sketch2) = Inr (Some [9, 7])"
  by (simp add: GetTop_twice_def GetTop_def sketch2_def IsEmpty_def Poll_def estimate_def
        lookup0_def HashCode_def append_slice_def)

lemma GetTop_sketch2_state:
  "map_sum id (\<lambda>(s, r). (priorityQueue s, topcent s, counts s)) (GetTop sketch2)
     = Inr ([], Some [9, 7], Some [2, 3])"
  by (simp add: GetTop_def sketch2_def IsEmpty_def Poll_def estimate_def
        lookup0_def HashCode_def append_slice_def)

lemma sketch2_reached:
  "map_sum id (\<lambda>s. (table s, size_f s, priorityQueue s, k_f s, items s 7, items s 9,
                    countlist s 7, countlist s 9, topcent s, counts s))
      (run_Add 2 (sketch0\<lparr>k_f := 3\<rparr>) [7, 9, 7])
     = Inr (table sketch2, size_f sketch2, priorityQueue sketch2, k_f sketch2, items sketch2 7,
            items sketch2 9, countlist sketch2 7, countlist sketch2 9, topcent sketch2,
            counts sketch2)"
  by (simp add: sketch0_def sketch2_def Add_def AddLong_def AddLong_row_def Hash_def
        PRIME_MODULUS_def Let_def HashCode_def Enqueue_def Dequeue_def Size_def Poll_def
        estimate_def lookup0_def upt_conv_Cons)







section \<open>Properties of the reduce pass\<close>

lemma scan_hash_cases:
  "scan_hash cent vec hs =
     (if (\<exists>h\<in>set hs. Contains (ids cent) (int h)) then UpdateVector cent vec else cent)"
  by (induction hs) auto

lemma scan_hash_matches:
  "scan_hash cent vec [0..<length hash] =
     (if scan_matches (ids cent) hash then UpdateVector cent vec else cent)"
  by (simp add: scan_hash_cases scan_matches_def list_ex_iff del: set_upt)

lemma update_centroids_map:
  "update_centroids centroids vec hash =
     map (\<lambda>cent. if scan_matches (ids cent) hash then UpdateVector cent vec else cent) centroids"
  by (simp add: update_centroids_def scan_hash_matches)

text \<open>
  The vectors the loop handles: all the vectors of the iterator but the last one, which
  is taken by \<open>Next\<close> and never handled.
\<close>

lemma Reduce_loop_fold:
  "Reduce_loop LSHHashStream blurValue vec vecs centroids =
     fold (\<lambda>v cs. update_centroids cs v (LSHHashStream v blurValue)) (butlast (vec # vecs)) centroids"
  by (induction vecs arbitrary: vec centroids) simp_all

text \<open>The centroids do not interact: the pass is one pass per centroid.\<close>

lemma fold_map_pointwise:
  "fold (\<lambda>v. map (f v)) vs cs = map (\<lambda>c. fold f vs c) cs"
  by (induction vs arbitrary: cs) (simp_all add: comp_def)

lemma fold_scan_ids:
  "ids (fold (\<lambda>v cent. if scan_matches (ids cent) (S v) then UpdateVector cent v else cent) vs c)
     = ids c"
  by (induction vs arbitrary: c) (simp_all add: UpdateVector_def)

lemma fold_scan_cnt:
  "cnt (fold (\<lambda>v cent. if scan_matches (ids cent) (S v) then UpdateVector cent v else cent) vs c)
     = cnt c + length (filter (\<lambda>v. scan_matches (ids c) (S v)) vs)"
proof (induction vs arbitrary: c)
  case Nil
  then show ?case by simp
next
  case (Cons v vs)
  have i: "ids (UpdateVector c v) = ids c" and n: "cnt (UpdateVector c v) = cnt c + 1"
    by (simp_all add: UpdateVector_def)
  show ?case
  proof (cases "scan_matches (ids c) (S v)")
    case True
    then show ?thesis using Cons.IH[of "UpdateVector c v"] by (simp add: i n)
  next
    case False
    then show ?thesis using Cons.IH[of c] by simp
  qed
qed

text \<open>
  Claim C3, as amended.  The reduce pass creates one centroid per top label and handles
  the vectors in the order of the iterator, each at most once.  For every vector \<open>v\<close> it
  handles, every centroid is scanned, independently of the others and with no stop
  after a centroid has received \<open>v\<close>: the scan of a centroid ends at its first match,
  with one \<open>UpdateVector(v)\<close>, so \<open>v\<close> is added at most once to a centroid, never
  twice, but it is added to every centroid whose scan succeeds, possibly to several.
  The count of a centroid at the end of the pass is the number of handled vectors
  whose scan succeeded on it, and its label set is the one it was created with.

  (In the code the handled vectors are \<open>butlast\<close> of the iterator, and a scan succeeds
  as \<open>scan_matches\<close> says.)
\<close>

theorem Reduce_adds_vector_once_to_each_scanned_centroid:
  "Reduce_centroids LSHHashStream blurValue dimension topIDs [] = []
   \<and> Reduce_centroids LSHHashStream blurValue dimension topIDs (vec # vecs) =
       fold (\<lambda>v. map (\<lambda>cent. if scan_matches (ids cent) (LSHHashStream v blurValue)
                              then UpdateVector cent v else cent))
         (butlast (vec # vecs)) (map (NewCentroid dimension) topIDs)
   \<and> map ids (Reduce_centroids LSHHashStream blurValue dimension topIDs (vec # vecs))
       = map (\<lambda>label. [label]) topIDs
   \<and> map cnt (Reduce_centroids LSHHashStream blurValue dimension topIDs (vec # vecs))
       = map (\<lambda>label. length (filter (\<lambda>v. scan_matches [label] (LSHHashStream v blurValue))
                                 (butlast (vec # vecs)))) topIDs
   \<and> list_all (\<lambda>cent. cnt cent \<le> length vecs)
       (Reduce_centroids LSHHashStream blurValue dimension topIDs (vec # vecs))"
proof -
  let ?S = "\<lambda>v. LSHHashStream v blurValue"
  let ?step = "\<lambda>v cent. if scan_matches (ids cent) (?S v) then UpdateVector cent v else cent"
  let ?hs = "butlast (vec # vecs)"
  let ?R = "Reduce_centroids LSHHashStream blurValue dimension topIDs (vec # vecs)"
  have e: "Reduce_centroids LSHHashStream blurValue dimension topIDs [] = []"
    by (simp add: Reduce_centroids_def)
  have f: "?R = fold (\<lambda>v. map (?step v)) ?hs (map (NewCentroid dimension) topIDs)"
    by (simp only: Reduce_centroids_def list.case Reduce_loop_fold update_centroids_map)
  then have p: "?R = map (\<lambda>label. fold ?step ?hs (NewCentroid dimension label)) topIDs"
    by (simp only: fold_map_pointwise map_map comp_def)
  have i: "map ids ?R = map (\<lambda>label. [label]) topIDs"
    by (simp only: p map_map comp_def fold_scan_ids) (simp add: NewCentroid_def)
  have c: "map cnt ?R
       = map (\<lambda>label. length (filter (\<lambda>v. scan_matches [label] (?S v)) ?hs)) topIDs"
    by (simp only: p map_map comp_def fold_scan_cnt) (simp add: NewCentroid_def)
  have "cnt cent \<le> length vecs" if "cent \<in> set ?R" for cent
  proof -
    from that have "cnt cent \<in> set (map cnt ?R)" by (simp only: set_map image_eqI[OF refl])
    then have "cnt cent \<in> set (map (\<lambda>label. length (filter (\<lambda>v. scan_matches [label] (?S v)) ?hs)) topIDs)"
      by (simp only: c)
    then obtain label where "cnt cent = length (filter (\<lambda>v. scan_matches [label] (?S v)) ?hs)"
      by (auto simp only: set_map)
    moreover have "length (filter (\<lambda>v. scan_matches [label] (?S v)) ?hs) \<le> length ?hs"
      by (rule length_filter_le)
    moreover have "length ?hs = length vecs" by simp
    ultimately show ?thesis by linarith
  qed
  then have l: "list_all (\<lambda>cent. cnt cent \<le> length vecs) ?R" by (simp add: list_all_iff)
  from e f i c l show ?thesis by blast
qed

theorem Reduce_adds_vector_once_to_each_scanned_centroid_witness:
  "Reduce_centroids two_labels 2 1 [0, 1] [[1], [2], [4]]
     = [\<lparr> vec_sum = [3], cnt = 2, ids = [0] \<rparr>, \<lparr> vec_sum = [3], cnt = 2, ids = [1] \<rparr>]
   \<and> map ids (Reduce_centroids two_labels 2 1 [0, 1] [[1], [2], [4]]) = [[0], [1]]
   \<and> map cnt (Reduce_centroids two_labels 2 1 [0, 1] [[1], [2], [4]]) = [2, 2]"
  using Reduce_adds_vector_once_to_each_scanned_centroid[of two_labels 2 1 "[0, 1]" "[1]" "[[2], [4]]"]
  by (simp add: scan_matches_def two_labels_def NewCentroid_def Contains_def UpdateVector_def
        upt_conv_Cons)

text \<open>
  Counterexample to C3 as stated, in three runs of the pass on the top labels and an
  iterator of vectors of dimension 1.  With the label stream \<open>[0, 1]\<close> and the top labels
  0 and 1, the vector \<open>[1]\<close> is added to both centroids, not to at most one.  With the
  label stream \<open>[7, 7]\<close> and the top labels 7 and 1, the vector \<open>[1]\<close> is not added to the
  centroid of label 7, a label of its stream, and it is added to the centroid of label
  1, which is none.  With the single vector \<open>[1]\<close> in the iterator, no centroid receives
  it.
\<close>

theorem Reduce_adds_vector_to_two_centroids_counterexample:
  "Reduce_centroids two_labels 2 1 [0, 1] [[1], [2]]
     = [\<lparr> vec_sum = [1], cnt = 1, ids = [0] \<rparr>, \<lparr> vec_sum = [1], cnt = 1, ids = [1] \<rparr>]
   \<and> Reduce_centroids sevens 2 1 [7, 1] [[1], [2]]
     = [\<lparr> vec_sum = [0], cnt = 0, ids = [7] \<rparr>, \<lparr> vec_sum = [1], cnt = 1, ids = [1] \<rparr>]
   \<and> Reduce_centroids two_labels 2 1 [0, 1] [[1]]
     = [\<lparr> vec_sum = [0], cnt = 0, ids = [0] \<rparr>, \<lparr> vec_sum = [0], cnt = 0, ids = [1] \<rparr>]"
  by (simp add: Reduce_centroids_def update_centroids_def two_labels_def sevens_def
        NewCentroid_def Contains_def UpdateVector_def upt_conv_Cons)

section \<open>Properties of the random projection\<close>













lemma New_draws6: "New draws6 6 1 = Inr rp6"
  by (simp add: New_def quo_def rp6_def draws6_def upt_conv_Cons Let_def)

lemma Project_rp6: "Project rp6 (basis 6 0) = Inr [- sqrt 3]"
  by (simp add: Project_def Project_row_def rp6_def basis_def upt_conv_Cons)



text \<open>
  Claim C8, at a failing input.  With a generator whose first draw is 0, \<open>New(6, 1, _)\<close>
  stores \<open>M[0] = [0, 0, 3]\<close> and \<open>P[0] = [0]\<close>: the leading 0 of each list is the padding
  of C9, and coordinate 0 is a genuine \<open>-1\<close> entry.  \<open>Project\<close> maps \<open>e_0\<close> to
  \<open>[- scale]\<close> with \<open>scale = sqrt 3\<close>, while the formula of the claim, read on the stored
  index lists, gives \<open>scale \<cdot> (1 - 1) = 0\<close>, coordinate 0 being in both.
\<close>

theorem Project_basis_vector_against_index_lists:
  "New draws6 6 1 = Inr rp6
   \<and> M_f rp6 ! 0 = [0, 0, 3] \<and> P_f rp6 ! 0 = [0]
   \<and> Project rp6 (basis 6 0) = Inr [- sqrt 3]
   \<and> spec_basis_coordinate (sqrt (3 / real_of_int (t_f rp6))) (P_f rp6 ! 0) (M_f rp6 ! 0) 0 = 0"
  using New_draws6 Project_rp6 by (simp add: rp6_def spec_basis_coordinate_def)

end
